theory Spec2Isabelle
  imports Complex_Main "HOL-Library.Multiset" "HOL-Library.Word"
begin

section \<open>Data model of \<open>webapp/app.js\<close>\<close>

text \<open>
  An entry of a window is one of the strings \<open>'p'\<close>, \<open>'m'\<close>, \<open>'s'\<close>. JavaScript
  arrays grow when an index past the end is assigned and leave empty slots in between;
  \<open>Hole\<close> is such a slot (it compares unequal to each of the three strings, and
  \<open>filter\<close> and \<open>forEach\<close> skip it).
\<close>

datatype kind = Pending | Moving | Staying | Hole

text \<open>
  A JavaScript string is a sequence of UTF-16 code units. \<open>ascii\<close> writes one from the
  characters of a literal.
\<close>

type_synonym jsstring = "16 word list"

definition ascii :: "string \<Rightarrow> jsstring" where
  "ascii s = map of_char s"

text \<open>The objects pushed on \<open>w.history\<close>: \<open>{op:'add'}\<close>, \<open>{op:'remove'}\<close>,
  \<open>{op:'assign', index, from, to}\<close>.\<close>

datatype hist = Add | Remove | Assign nat kind kind

text \<open>\<open>{startSec, endSec, entries, notes, history}\<close>. The newest history entry is the
  last element, as in the array.\<close>

record window =
  startSec :: int
  endSec :: int
  entries :: "kind list"
  "notes" :: jsstring
  history :: "hist list"

text \<open>The messages the code shows with \<open>alert\<close> before it returns without effect.\<close>

datatype error =
    MissingVideoId
  | InvalidRange
  | BadFilename jsstring
  | NoPendingEntry
  | NoEntryOfKind kind
  | PendingRemaining

section \<open>Classification operations on the current window\<close>

text \<open>
  The functions of this section are the bodies of \<open>addPerson\<close>, \<open>removePerson\<close>,
  \<open>assignFromPending\<close>, \<open>revertToPending\<close> and \<open>undo\<close> on
  \<open>w = state.windows[state.currentIndex]\<close>. Each returns the window after the call and the
  alert it raised, if any.

  \<open>scanBack es k n\<close> is the loop \<open>for (let i = n - 1; i >= 0; i--) if (es[i] === k) ...\<close>:
  the index the loop stops at, or \<open>None\<close> when it runs to the end.
\<close>

fun scanBack :: "kind list \<Rightarrow> kind \<Rightarrow> nat \<Rightarrow> nat option" where
  "scanBack es k 0 = None"
| "scanBack es k (Suc i) = (if es ! i = k then Some i else scanBack es k i)"

text \<open>\<open>es.splice(i, 1)\<close>\<close>

definition splice1 :: "kind list \<Rightarrow> nat \<Rightarrow> kind list" where
  "splice1 es i = take i es @ drop (Suc i) es"

text \<open>\<open>es[i] = v\<close>: in range it overwrites; past the end the array is extended.\<close>

definition setIndex :: "kind list \<Rightarrow> nat \<Rightarrow> kind \<Rightarrow> kind list" where
  "setIndex es i v =
     (if i < length es then es[i := v]
      else es @ replicate (i - length es) Hole @ [v])"

definition addPerson :: "window \<Rightarrow> window \<times> error option" where
  "addPerson w =
     (w\<lparr>entries := entries w @ [Pending], history := history w @ [Add]\<rparr>, None)"

definition removePerson :: "window \<Rightarrow> window \<times> error option" where
  "removePerson w =
     (case scanBack (entries w) Pending (length (entries w)) of
        Some i \<Rightarrow>
          (w\<lparr>entries := splice1 (entries w) i, history := history w @ [Remove]\<rparr>, None)
      | None \<Rightarrow> (w, Some NoPendingEntry))"

definition assignFromPending :: "kind \<Rightarrow> window \<Rightarrow> window \<times> error option" where
  "assignFromPending toKind w =
     (case scanBack (entries w) Pending (length (entries w)) of
        Some i \<Rightarrow>
          (w\<lparr>entries := setIndex (entries w) i toKind,
             history := history w @ [Assign i Pending toKind]\<rparr>, None)
      | None \<Rightarrow> (w, Some NoPendingEntry))"

definition revertToPending :: "kind \<Rightarrow> window \<Rightarrow> window \<times> error option" where
  "revertToPending fromKind w =
     (case scanBack (entries w) fromKind (length (entries w)) of
        Some i \<Rightarrow>
          (w\<lparr>entries := setIndex (entries w) i Pending,
             history := history w @ [Assign i fromKind Pending]\<rparr>, None)
      | None \<Rightarrow> (w, Some (NoEntryOfKind fromKind)))"

text \<open>\<open>undo\<close> raises no alert on any path, so it returns the window alone.\<close>

definition undo :: "window \<Rightarrow> window" where
  "undo w =
     (if history w = [] then w
      else
        let w1 = w\<lparr>history := butlast (history w)\<rparr> in
        (case last (history w) of
           Add \<Rightarrow>
             (case scanBack (entries w1) Pending (length (entries w1)) of
                Some i \<Rightarrow> w1\<lparr>entries := splice1 (entries w1) i\<rparr>
              | None \<Rightarrow> w1)
         | Remove \<Rightarrow> w1\<lparr>entries := entries w1 @ [Pending]\<rparr>
         | Assign i fromKind toKind \<Rightarrow> w1\<lparr>entries := setIndex (entries w1) i fromKind\<rparr>))"

section \<open>Session state and the inputs read from the page\<close>

text \<open>
  Absolute times are epoch seconds and relative times are seconds; both are whole numbers
  in every caller (\<open>parseInt\<close> results and filename clock times), so they are \<open>int\<close>
  here. \<open>{startAbs, endAbs}\<close> is one covered range; \<open>parseP\<close> returns such a pair together
  with the two clock strings.
\<close>

record interval =
  startAbs :: int
  endAbs :: int

record pinfo = interval +
  startStr :: jsstring
  endStr :: jsstring

text \<open>The global \<open>state\<close>. \<open>absOrigin\<close> and \<open>coverage\<close> start as \<open>null\<close>.\<close>

record state =
  videoId :: jsstring
  windowSeconds :: int
  windows :: "window list"
  currentIndex :: nat
  absOrigin :: "int option"
  coverage :: "interval list option"

text \<open>
  What the code reads from the page when it generates windows: the text of \<open>#videoId\<close>,
  \<open>parseHMS\<close> of \<open>#startTime\<close> and of \<open>#endTime\<close>, and \<open>parseInt\<close> of \<open>#windowMinutes\<close>
  (\<open>None\<close> for \<open>NaN\<close>).
\<close>

record form =
  videoIdValue :: jsstring
  startTime :: int
  endTime :: int
  windowMinutes :: "int option"

text \<open>How a call that works on the session ended: normally, with the warning that no
  on-time slot was found, with an alert, or because the user declined the overwrite.\<close>

datatype report = Done | NoSlotWarning | Alert error | Cancelled

text \<open>
  \<open>String.prototype.trim\<close> removes the white space and line terminator code units of
  ECMAScript from both ends: TAB, LF, VT, FF, CR, SPACE, U+00A0, U+1680, U+2000 to U+200A,
  U+2028, U+2029, U+202F, U+205F, U+3000 and U+FEFF.
\<close>

definition isSpace :: "16 word \<Rightarrow> bool" where
  "isSpace c \<longleftrightarrow> c \<in> set [0x0009, 0x000A, 0x000B, 0x000C, 0x000D, 0x0020, 0x00A0, 0x1680,
     0x2000, 0x2001, 0x2002, 0x2003, 0x2004, 0x2005, 0x2006, 0x2007, 0x2008, 0x2009, 0x200A,
     0x2028, 0x2029, 0x202F, 0x205F, 0x3000, 0xFEFF]"

definition trim :: "jsstring \<Rightarrow> jsstring" where
  "trim s = rev (dropWhile isSpace (rev (dropWhile isSpace s)))"

text \<open>\<open>Math.max(1, parseInt($("#windowMinutes").value, 10) || 5)\<close>: \<open>NaN\<close> and \<open>0\<close> are
  falsy.\<close>

definition minutesOf :: "int option \<Rightarrow> int" where
  "minutesOf m = max 1 (case m of None \<Rightarrow> 5 | Some n \<Rightarrow> if n = 0 then 5 else n)"

definition newWindow :: "int \<Rightarrow> int \<Rightarrow> window" where
  "newWindow a b = \<lparr>startSec = a, endSec = b, entries = [], notes = [], history = []\<rparr>"

section \<open>Manual mode: \<open>generateWindows\<close>\<close>

text \<open>
  \<open>for (let t = start; t < end; t += state.windowSeconds) state.windows.push({...})\<close>,
  with the windows pushed so far as accumulator. The loop does not return for a step that
  is not positive, hence the \<open>option\<close>.
\<close>

partial_function (option) manualLoop :: "int \<Rightarrow> int \<Rightarrow> int \<Rightarrow> window list \<Rightarrow> window list option"
where
  "manualLoop t e step ws =
     (if t < e then manualLoop (t + step) e step (ws @ [newWindow t (min (t + step) e)])
      else Some ws)"

definition generateWindows :: "form \<Rightarrow> state \<Rightarrow> (state \<times> report) option" where
  "generateWindows f st =
     (let vid = trim (videoIdValue f);
          start = startTime f;
          e = endTime f;
          minutes = minutesOf (windowMinutes f)
      in if vid = [] then Some (st, Alert MissingVideoId)
         else if \<not> (e > start) then Some (st, Alert InvalidRange)
         else
           (case manualLoop start e (minutes * 60) [] of
              None \<Rightarrow> None
            | Some ws \<Rightarrow>
                Some (st\<lparr>videoId := vid, windowSeconds := minutes * 60, absOrigin := None,
                        windows := ws, currentIndex := 0\<rparr>, Done)))"

section \<open>Wall-clock mode: \<open>buildWindowsFromAbsRange\<close>\<close>

text \<open>
  \<open>Math.floor(ts / step) * step\<close> and \<open>Math.ceil(ts / step) * step\<close>. The quotient is taken
  in the reals: for whole numbers of the size of an epoch time the rounded quotient of
  JavaScript has the same floor and the same ceiling as the exact one.
\<close>

definition alignDown :: "int \<Rightarrow> int \<Rightarrow> int" where
  "alignDown step ts = \<lfloor>real_of_int ts / real_of_int step\<rfloor> * step"

definition alignUp :: "int \<Rightarrow> int \<Rightarrow> int" where
  "alignUp step ts = \<lceil>real_of_int ts / real_of_int step\<rceil> * step"

text \<open>\<open>Array.prototype.some\<close>: the first element that satisfies the test ends the walk.\<close>

fun array_some :: "('a \<Rightarrow> bool) \<Rightarrow> 'a list \<Rightarrow> bool" where
  "array_some p [] = False"
| "array_some p (x # xs) = (if p x then True else array_some p xs)"

text \<open>\<open>isCovered = (a, b) => cov.some((c) => c.startAbs <= a && b <= c.endAbs)\<close>\<close>

definition isCovered :: "interval list \<Rightarrow> int \<Rightarrow> int \<Rightarrow> bool" where
  "isCovered cov a b = array_some (\<lambda>c. startAbs c \<le> a \<and> b \<le> endAbs c) cov"

text \<open>
  \<open>for (let t = alignedStart; t + step <= alignedEnd; t += step)\<close>: a slot that no file
  covers is skipped, the others are pushed with offsets relative to \<open>startAbs\<close>.
\<close>

partial_function (option) gridLoop ::
  "int \<Rightarrow> int \<Rightarrow> int \<Rightarrow> int \<Rightarrow> interval list \<Rightarrow> window list \<Rightarrow> window list option"
where
  "gridLoop t alignedEnd step origin cov ws =
     (if t + step \<le> alignedEnd then
        (if \<not> isCovered cov t (t + step) then gridLoop (t + step) alignedEnd step origin cov ws
         else gridLoop (t + step) alignedEnd step origin cov
                (ws @ [newWindow (t - origin) (t + step - origin)]))
      else Some ws)"

definition buildWindowsFromAbsRange ::
  "form \<Rightarrow> int \<Rightarrow> int \<Rightarrow> int \<Rightarrow> state \<Rightarrow> (state \<times> report) option" where
  "buildWindowsFromAbsRange f sAbs eAbs minutes st =
     (let vid = trim (videoIdValue f) in
      if vid = [] then Some (st, Alert MissingVideoId)
      else
        let step = max 1 minutes * 60;
            alignedStart = alignUp step sAbs;
            alignedEnd = alignDown step eAbs;
            cov = (case coverage st of
                     Some c \<Rightarrow> c
                   | None \<Rightarrow> [\<lparr>startAbs = sAbs, endAbs = eAbs\<rparr>])
        in (case gridLoop alignedStart alignedEnd step sAbs cov [] of
              None \<Rightarrow> None
            | Some ws \<Rightarrow>
                Some (st\<lparr>videoId := vid, windowSeconds := step, absOrigin := Some sAbs,
                        windows := ws, currentIndex := 0\<rparr>,
                      if ws = [] then NoSlotWarning else Done)))"

section \<open>Selecting several files\<close>

text \<open>
  The branch \<open>files.length > 1\<close> of the \<open>change\<close> handler of \<open>#videoFileInput\<close>. The parser
  \<open>parseP\<close> is not part of \<open>app.js\<close> and is a parameter; \<open>confirmOverwrite\<close> is the answer to
  the \<open>confirm\<close> dialog, which is asked only when windows exist. The handler also writes
  the video source and the \<open>#startTime\<close> and \<open>#endTime\<close> fields; of its writes to the
  page only the one to \<open>#videoId\<close> is kept here, since \<open>buildWindowsFromAbsRange\<close> reads it
  back. The branch is entered with at least two files, so the sorted list \<open>metas\<close> has a
  first and a last element.
\<close>

text \<open>\<open>for (const f of files) { const info = parseP(f.name); if (!info) { alert; return; }
  metas.push({file: f, info}); }\<close>: \<open>Inl\<close> is the first name that does not parse.\<close>

fun collectMetas ::
  "(jsstring \<Rightarrow> pinfo option) \<Rightarrow> jsstring list \<Rightarrow> (jsstring \<times> pinfo) list
     \<Rightarrow> jsstring + (jsstring \<times> pinfo) list" where
  "collectMetas parseP [] metas = Inr metas"
| "collectMetas parseP (n # ns) metas =
     (case parseP n of
        None \<Rightarrow> Inl n
      | Some info \<Rightarrow> collectMetas parseP ns (metas @ [(n, info)]))"

text \<open>\<open>name.replace(/\.[^.]+$/, "")\<close>\<close>

definition stripExt :: "jsstring \<Rightarrow> jsstring" where
  "stripExt n =
     (let ext = takeWhile (\<lambda>c. c \<noteq> of_char CHR ''.'') (rev n)
      in if ext \<noteq> [] \<and> length ext < length n then take (length n - length ext - 1) n
         else n)"

definition fiChangeMulti ::
  "(jsstring \<Rightarrow> pinfo option) \<Rightarrow> bool \<Rightarrow> jsstring list \<Rightarrow> form \<Rightarrow> state
     \<Rightarrow> (state \<times> report) option" where
  "fiChangeMulti parseP confirmOverwrite names f st =
     (case collectMetas parseP names [] of
        Inl n \<Rightarrow> Some (st, Alert (BadFilename n))
      | Inr unsorted \<Rightarrow>
          let metas = sort_key (\<lambda>m. startAbs (snd m)) unsorted;
              minStart = startAbs (snd (hd metas));
              maxEnd = endAbs (snd (last metas));
              f1 = (if videoIdValue f = []
                    then f\<lparr>videoIdValue := stripExt (fst (hd metas)) @ ascii ''_set''\<rparr>
                    else f)
          in if windows st \<noteq> [] \<and> \<not> confirmOverwrite then Some (st, Cancelled)
             else
               let minutes = minutesOf (windowMinutes f1);
                   st1 = st\<lparr>coverage :=
                           Some (map (\<lambda>m. \<lparr>startAbs = startAbs (snd m), endAbs = endAbs (snd m)\<rparr>)
                                   metas)\<rparr>
               in buildWindowsFromAbsRange f1 minStart maxEnd minutes st1)"

text \<open>
  Modelled from the spec: \<open>parseP\<close> is not in \<open>app.js\<close>. These are the values its
  description gives for two file names of 1 January 2024, one from 09:00 to 10:00 and one
  from 09:10 to 09:20, with local time taken as UTC; every other name does not parse.
\<close>

definition parseP_sample :: "jsstring \<Rightarrow> pinfo option" where
  "parseP_sample n =
     (if n = ascii ''P240101_090000_100000.mp4''
      then Some \<lparr>startAbs = 1704099600, endAbs = 1704103200,
                 startStr = ascii ''09:00:00'', endStr = ascii ''10:00:00''\<rparr>
      else if n = ascii ''P240101_091000_092000.mp4''
      then Some \<lparr>startAbs = 1704100200, endAbs = 1704100800,
                 startStr = ascii ''09:10:00'', endStr = ascii ''09:20:00''\<rparr>
      else None)"

section \<open>CSV export\<close>

text \<open>
  A CSV line is kept as its list of cells before \<open>csvEscape\<close> and \<open>join\<close>; a time cell
  holds the seconds that \<open>secToHMS\<close> or \<open>absToHMS\<close> would print. \<open>Inl\<close> is the alert after
  which the exporter returns without calling \<open>downloadBlob\<close>; \<open>Inr\<close> holds the lines of the
  downloaded file.
\<close>

datatype cell = Text jsstring | Count nat | RelTime int | AbsTime int | PersonId nat

definition timeCell :: "state \<Rightarrow> int \<Rightarrow> cell" where
  "timeCell st sec = (case absOrigin st of Some orig \<Rightarrow> AbsTime (orig + sec) | None \<Rightarrow> RelTime sec)"

text \<open>\<open>es.filter((e) => e === k).length\<close>\<close>

definition countKind :: "kind \<Rightarrow> kind list \<Rightarrow> nat" where
  "countKind k es = length (filter (\<lambda>e. e = k) es)"

definition summaryHeader :: "cell list" where
  "summaryHeader = map (\<lambda>s. Text (ascii s)) [''video_id'', ''window_start'', ''window_end'', ''total_unique'',
     ''moving_count'', ''staying_count'', ''notes'']"

definition summaryRow :: "state \<Rightarrow> window \<Rightarrow> cell list" where
  "summaryRow st w =
     (let moving = countKind Moving (entries w);
          staying = countKind Staying (entries w);
          total = moving + staying
      in [Text (videoId st), timeCell st (startSec w), timeCell st (endSec w),
          Count total, Count moving, Count staying, Text (notes w)])"

fun summaryLoop :: "state \<Rightarrow> window list \<Rightarrow> cell list list \<Rightarrow> error + cell list list" where
  "summaryLoop st [] rows = Inr rows"
| "summaryLoop st (w # ws) rows =
     (if countKind Pending (entries w) > 0 then Inl PendingRemaining
      else summaryLoop st ws (rows @ [summaryRow st w]))"

definition exportCSV :: "state \<Rightarrow> error + cell list list" where
  "exportCSV st = summaryLoop st (windows st) [summaryHeader]"

definition detailHeader :: "cell list" where
  "detailHeader = map (\<lambda>s. Text (ascii s)) [''video_id'', ''window_start'', ''person_local_id'', ''visible_sec'',
     ''behavior'', ''remarks'']"

definition detailRow :: "state \<Rightarrow> window \<Rightarrow> nat \<Rightarrow> kind \<Rightarrow> cell list" where
  "detailRow st w idx e =
     [Text (videoId st), timeCell st (startSec w), PersonId idx, Text [],
      Text (ascii (if e = Moving then ''moving'' else ''staying'')), Text []]"

text \<open>\<open>w.entries.forEach\<close> with the running \<open>idx\<close>.\<close>

fun detailEntries ::
  "state \<Rightarrow> window \<Rightarrow> kind list \<Rightarrow> nat \<Rightarrow> cell list list \<Rightarrow> cell list list" where
  "detailEntries st w [] idx rows = rows"
| "detailEntries st w (e # es) idx rows =
     (if e = Moving \<or> e = Staying
      then detailEntries st w es (idx + 1) (rows @ [detailRow st w idx e])
      else detailEntries st w es idx rows)"

fun detailLoop :: "state \<Rightarrow> window list \<Rightarrow> cell list list \<Rightarrow> error + cell list list" where
  "detailLoop st [] rows = Inr rows"
| "detailLoop st (w # ws) rows =
     (if countKind Pending (entries w) > 0 then Inl PendingRemaining
      else detailLoop st ws (detailEntries st w (entries w) 1 rows))"

definition exportDetailCSV :: "state \<Rightarrow> error + cell list list" where
  "exportDetailCSV st = detailLoop st (windows st) [detailHeader]"

section \<open>Facts about the backward scan\<close>

lemma scanBack_None_iff:
  "scanBack es k n = None \<longleftrightarrow> (\<forall>j<n. es ! j \<noteq> k)"
  by (induction n) (auto simp: less_Suc_eq)

lemma scanBack_Some_D:
  "scanBack es k n = Some i \<Longrightarrow> i < n \<and> es ! i = k \<and> (\<forall>j. i < j \<and> j < n \<longrightarrow> es ! j \<noteq> k)"
proof (induction n)
  case 0
  then show ?case by simp
next
  case (Suc n)
  show ?case
  proof (cases "es ! n = k")
    case True
    with Suc.prems show ?thesis by auto
  next
    case False
    with Suc.prems have "scanBack es k n = Some i" by simp
    from Suc.IH [OF this] False show ?thesis
      by (auto simp: less_Suc_eq)
  qed
qed

lemma scanBack_length_None_iff:
  "scanBack es k (length es) = None \<longleftrightarrow> k \<notin> set es"
  by (auto simp: scanBack_None_iff in_set_conv_nth)

lemma scanBack_snoc:
  "scanBack (es @ [k]) k (Suc (length es)) = Some (length es)"
  by simp

lemma splice1_snoc: "splice1 (es @ [k]) (length es) = es"
  by (simp add: splice1_def)

lemma setIndex_restore:
  "i < length es \<Longrightarrow> setIndex (setIndex es i v) i (es ! i) = es"
  by (simp add: setIndex_def)

lemma mset_splice1_snoc:
  "i < length es \<Longrightarrow> mset (splice1 es i @ [es ! i]) = mset es"
proof -
  assume "i < length es"
  then have "es = take i es @ es ! i # drop (Suc i) es"
    by (simp add: id_take_nth_drop)
  then have "mset es = mset (take i es) + {#es ! i#} + mset (drop (Suc i) es)"
    by (metis mset.simps(2) mset_append add_mset_add_single union_assoc union_commute)
  then show ?thesis by (simp add: splice1_def)
qed

section \<open>Facts about the operations on a window\<close>

lemma undo_addPerson: "undo (fst (addPerson w)) = w"
  by (simp add: undo_def addPerson_def splice1_def)

lemma assign_success_D:
  assumes "snd (assignFromPending k w) = None"
  shows "\<exists>i. scanBack (entries w) Pending (length (entries w)) = Some i \<and>
    fst (assignFromPending k w) = w\<lparr>entries := (entries w)[i := k], history := history w @ [Assign i Pending k]\<rparr>"
  using assms
  by (auto simp: assignFromPending_def setIndex_def split: option.splits dest: scanBack_Some_D)

lemma revert_success_D:
  assumes "snd (revertToPending k w) = None"
  shows "\<exists>i. scanBack (entries w) k (length (entries w)) = Some i \<and>
    fst (revertToPending k w) = w\<lparr>entries := (entries w)[i := Pending], history := history w @ [Assign i k Pending]\<rparr>"
  using assms
  by (auto simp: revertToPending_def setIndex_def split: option.splits dest: scanBack_Some_D)

lemma remove_success_D:
  assumes "snd (removePerson w) = None"
  shows "\<exists>i. scanBack (entries w) Pending (length (entries w)) = Some i \<and>
    fst (removePerson w) = w\<lparr>entries := splice1 (entries w) i, history := history w @ [Remove]\<rparr>"
  using assms
  by (auto simp: removePerson_def split: option.splits)

lemma undo_assign:
  assumes "snd (assignFromPending k w) = None"
  shows "undo (fst (assignFromPending k w)) = w"
proof -
  from assign_success_D [OF assms] obtain i where
    sc: "scanBack (entries w) Pending (length (entries w)) = Some i" and
    eq: "fst (assignFromPending k w) = w\<lparr>entries := (entries w)[i := k], history := history w @ [Assign i Pending k]\<rparr>"
    by blast
  from scanBack_Some_D [OF sc] have i: "i < length (entries w)" "entries w ! i = Pending" by auto
  then have "(entries w)[i := Pending] = entries w" by (metis list_update_id)
  with i show ?thesis
    by (simp add: eq undo_def setIndex_def)
qed

lemma undo_revert:
  assumes "snd (revertToPending k w) = None"
  shows "undo (fst (revertToPending k w)) = w"
proof -
  from revert_success_D [OF assms] obtain i where
    sc: "scanBack (entries w) k (length (entries w)) = Some i" and
    eq: "fst (revertToPending k w) = w\<lparr>entries := (entries w)[i := Pending], history := history w @ [Assign i k Pending]\<rparr>"
    by blast
  from scanBack_Some_D [OF sc] have i: "i < length (entries w)" "entries w ! i = k" by auto
  then have "(entries w)[i := k] = entries w" by (metis list_update_id)
  with i show ?thesis
    by (simp add: eq undo_def setIndex_def)
qed

lemma undo_remove:
  assumes "scanBack (entries w) Pending (length (entries w)) = Some i"
  shows "undo (fst (removePerson w)) = w\<lparr>entries := splice1 (entries w) i @ [Pending]\<rparr>"
  using assms by (simp add: removePerson_def undo_def)

lemma splice1_snoc_eq_iff:
  assumes "i < length es" "es ! i = k" "\<forall>j. i < j \<and> j < length es \<longrightarrow> es ! j \<noteq> k"
  shows "splice1 es i @ [k] = es \<longleftrightarrow> last es = k"
proof
  assume "splice1 es i @ [k] = es"
  then have "last es = last (splice1 es i @ [k])" by simp
  then show "last es = k" by simp
next
  assume l: "last es = k"
  from assms(1) have ne: "es \<noteq> []" by auto
  have "i = length es - 1"
  proof (rule ccontr)
    assume "i \<noteq> length es - 1"
    with assms(1) have "i < length es - 1" by simp
    with assms(3) have "es ! (length es - 1) \<noteq> k" by simp
    with l ne show False by (simp add: last_conv_nth)
  qed
  then have "splice1 es i = butlast es"
    using ne by (simp add: splice1_def butlast_conv_take)
  with l ne show "splice1 es i @ [k] = es"
    by (metis append_butlast_last_id)
qed


section \<open>Undo after a single operation\<close>

text \<open>
  Claim C2, as the code has it. For every window and every operation that succeeds (a
  failing one logs nothing, so the next \<open>undo\<close> would revert an older operation): \<open>undo\<close>
  after \<open>addPerson\<close>, after \<open>assignFromPending\<close> and after \<open>revertToPending\<close> gives back the
  window exactly. After \<open>removePerson\<close> it gives back the history and the same entries
  as a multiset; \<open>undo\<close> appends the \<open>Pending\<close> entry at the end, so the list itself comes
  back exactly when the last entry of the window was \<open>Pending\<close>.
\<close>

theorem undo_roundtrip:
  "undo (fst (addPerson w)) = w
   \<and> (snd (assignFromPending k w) = None \<longrightarrow> undo (fst (assignFromPending k w)) = w)
   \<and> (snd (revertToPending src w) = None \<longrightarrow> undo (fst (revertToPending src w)) = w)
   \<and> (snd (removePerson w) = None \<longrightarrow>
        history (undo (fst (removePerson w))) = history w
        \<and> mset (entries (undo (fst (removePerson w)))) = mset (entries w)
        \<and> (entries (undo (fst (removePerson w))) = entries w \<longleftrightarrow> last (entries w) = Pending))"
proof -
  have rem: "history (undo (fst (removePerson w))) = history w
        \<and> mset (entries (undo (fst (removePerson w)))) = mset (entries w)
        \<and> (entries (undo (fst (removePerson w))) = entries w \<longleftrightarrow> last (entries w) = Pending)"
    if ok: "snd (removePerson w) = None"
  proof -
    from remove_success_D [OF ok] obtain i where
      sc: "scanBack (entries w) Pending (length (entries w)) = Some i" by blast
    from scanBack_Some_D [OF sc] have i: "i < length (entries w)" "entries w ! i = Pending"
      "\<forall>j. i < j \<and> j < length (entries w) \<longrightarrow> entries w ! j \<noteq> Pending" by auto
    have u: "undo (fst (removePerson w)) = w\<lparr>entries := splice1 (entries w) i @ [Pending]\<rparr>"
      by (rule undo_remove [OF sc])
    have "mset (splice1 (entries w) i @ [Pending]) = mset (entries w)"
      using mset_splice1_snoc [OF i(1)] i(2) by simp
    moreover have "splice1 (entries w) i @ [Pending] = entries w \<longleftrightarrow> last (entries w) = Pending"
      by (rule splice1_snoc_eq_iff [OF i])
    ultimately show ?thesis by (simp add: u)
  qed
  show ?thesis
    using undo_addPerson undo_assign undo_revert rem by blast
qed

text \<open>The theorem at a window with entries \<open>[Moving, Pending]\<close>.\<close>

theorem undo_roundtrip_witness:
  "undo (fst (assignFromPending Staying
      \<lparr>startSec = 0, endSec = 300, entries = [Moving, Pending], notes = [], history = [Add]\<rparr>))
     = \<lparr>startSec = 0, endSec = 300, entries = [Moving, Pending], notes = [], history = [Add]\<rparr>
   \<and> undo (fst (revertToPending Moving
      \<lparr>startSec = 0, endSec = 300, entries = [Moving, Pending], notes = [], history = [Add]\<rparr>))
     = \<lparr>startSec = 0, endSec = 300, entries = [Moving, Pending], notes = [], history = [Add]\<rparr>
   \<and> entries (undo (fst (removePerson
      \<lparr>startSec = 0, endSec = 300, entries = [Moving, Pending], notes = [], history = [Add]\<rparr>)))
     = [Moving, Pending]"
  using undo_roundtrip [of "\<lparr>startSec = 0, endSec = 300, entries = [Moving, Pending],
      notes = [], history = [Add]\<rparr>" Staying Moving]
  by (simp add: assignFromPending_def revertToPending_def removePerson_def)

text \<open>
  Claim C2 as stated fails for \<open>removePerson\<close>: from \<open>[Pending, Moving]\<close> the removal leaves
  \<open>[Moving]\<close> and \<open>undo\<close> yields \<open>[Moving, Pending]\<close>.
\<close>

theorem undo_after_remove_counterexample:
  "snd (removePerson
      \<lparr>startSec = 0, endSec = 300, entries = [Pending, Moving], notes = [], history = []\<rparr>)
     = None
   \<and> entries (undo (fst (removePerson
      \<lparr>startSec = 0, endSec = 300, entries = [Pending, Moving], notes = [], history = []\<rparr>)))
     = [Moving, Pending]
   \<and> entries (undo (fst (removePerson
      \<lparr>startSec = 0, endSec = 300, entries = [Pending, Moving], notes = [], history = []\<rparr>)))
     \<noteq> entries
      \<lparr>startSec = 0, endSec = 300, entries = [Pending, Moving], notes = [], history = []\<rparr>"
  by (simp add: removePerson_def undo_def splice1_def)

section \<open>Classification works on the last matching entry\<close>

text \<open>
  Claim C3. On a fresh window, two \<open>addPerson\<close> calls and \<open>assignFromPending Moving\<close> leave
  the entries \<open>[Pending, Moving]\<close>. In general a successful \<open>assignFromPending\<close> rewrites
  the \<open>Pending\<close> entry with the highest index and nothing else, and a successful
  \<open>revertToPending src\<close> rewrites the entry of kind \<open>src\<close> with the highest index and
  nothing else.
\<close>

theorem classify_targets_last:
  "entries (fst (assignFromPending Moving (fst (addPerson (fst (addPerson (newWindow a b)))))))
     = [Pending, Moving]
   \<and> (snd (assignFromPending k w) = None \<longrightarrow>
        (\<exists>i<length (entries w). entries w ! i = Pending
           \<and> (\<forall>j. i < j \<and> j < length (entries w) \<longrightarrow> entries w ! j \<noteq> Pending)
           \<and> entries (fst (assignFromPending k w)) = (entries w)[i := k]))
   \<and> (snd (revertToPending src w) = None \<longrightarrow>
        (\<exists>i<length (entries w). entries w ! i = src
           \<and> (\<forall>j. i < j \<and> j < length (entries w) \<longrightarrow> entries w ! j \<noteq> src)
           \<and> entries (fst (revertToPending src w)) = (entries w)[i := Pending]))"
proof -
  have a: "entries (fst (assignFromPending Moving (fst (addPerson (fst (addPerson (newWindow a b)))))))
     = [Pending, Moving]"
    by (simp add: assignFromPending_def addPerson_def newWindow_def setIndex_def)
  have b: "\<exists>i<length (entries w). entries w ! i = Pending
           \<and> (\<forall>j. i < j \<and> j < length (entries w) \<longrightarrow> entries w ! j \<noteq> Pending)
           \<and> entries (fst (assignFromPending k w)) = (entries w)[i := k]"
    if ok: "snd (assignFromPending k w) = None"
  proof -
    from assign_success_D [OF ok] obtain i where
      sc: "scanBack (entries w) Pending (length (entries w)) = Some i" and
      eq: "fst (assignFromPending k w) =
        w\<lparr>entries := (entries w)[i := k], history := history w @ [Assign i Pending k]\<rparr>"
      by blast
    from scanBack_Some_D [OF sc] eq show ?thesis by auto
  qed
  have c: "\<exists>i<length (entries w). entries w ! i = src
           \<and> (\<forall>j. i < j \<and> j < length (entries w) \<longrightarrow> entries w ! j \<noteq> src)
           \<and> entries (fst (revertToPending src w)) = (entries w)[i := Pending]"
    if ok: "snd (revertToPending src w) = None"
  proof -
    from revert_success_D [OF ok] obtain i where
      sc: "scanBack (entries w) src (length (entries w)) = Some i" and
      eq: "fst (revertToPending src w) =
        w\<lparr>entries := (entries w)[i := Pending], history := history w @ [Assign i src Pending]\<rparr>"
      by blast
    from scanBack_Some_D [OF sc] eq show ?thesis by auto
  qed
  from a b c show ?thesis by blast
qed

text \<open>The theorem at a window with entries \<open>[Pending, Moving, Pending, Moving]\<close>.\<close>

theorem classify_targets_last_witness:
  "entries (fst (assignFromPending Staying
      \<lparr>startSec = 0, endSec = 300, entries = [Pending, Moving, Pending, Moving], notes = [],
        history = []\<rparr>)) = [Pending, Moving, Staying, Moving]
   \<and> entries (fst (revertToPending Moving
      \<lparr>startSec = 0, endSec = 300, entries = [Pending, Moving, Pending, Moving], notes = [],
        history = []\<rparr>)) = [Pending, Moving, Pending, Pending]"
  using classify_targets_last [of 0 300 Staying "\<lparr>startSec = 0, endSec = 300,
      entries = [Pending, Moving, Pending, Moving], notes = [], history = []\<rparr>" Moving]
  by (simp add: assignFromPending_def revertToPending_def setIndex_def)

section \<open>Failing operations\<close>

text \<open>
  Claim C8. \<open>removePerson\<close> and \<open>assignFromPending\<close> raise \<open>NoPendingEntry\<close> exactly when
  the window has no \<open>Pending\<close> entry, \<open>revertToPending src\<close> raises \<open>NoEntryOfKind src\<close>
  exactly when it has no entry of kind \<open>src\<close>, and in these cases the window (entries and
  history included) is returned as it was. \<open>undo\<close> on an empty history returns the window
  as it was and raises nothing.
\<close>

theorem failure_leaves_window:
  "(Pending \<notin> set (entries w) \<longrightarrow>
      removePerson w = (w, Some NoPendingEntry)
      \<and> assignFromPending k w = (w, Some NoPendingEntry))
   \<and> (Pending \<in> set (entries w) \<longrightarrow>
      snd (removePerson w) = None \<and> snd (assignFromPending k w) = None)
   \<and> (src \<notin> set (entries w) \<longrightarrow> revertToPending src w = (w, Some (NoEntryOfKind src)))
   \<and> (src \<in> set (entries w) \<longrightarrow> snd (revertToPending src w) = None)
   \<and> (history w = [] \<longrightarrow> undo w = w)"
proof -
  have n: "scanBack (entries w) x (length (entries w)) = None" if "x \<notin> set (entries w)" for x
    using that by (simp add: scanBack_length_None_iff)
  have s: "\<exists>i. scanBack (entries w) x (length (entries w)) = Some i" if "x \<in> set (entries w)" for x
    using that scanBack_length_None_iff [of "entries w" x] by (cases "scanBack (entries w) x (length (entries w))") auto
  show ?thesis
    using n [of Pending] n [of src] s [of Pending] s [of src]
    by (auto simp: removePerson_def assignFromPending_def revertToPending_def undo_def)
qed

text \<open>The theorem at a window without \<open>Pending\<close> entries and at one with such an entry.\<close>

theorem failure_leaves_window_witness:
  "removePerson \<lparr>startSec = 0, endSec = 300, entries = [Moving], notes = [], history = []\<rparr>
     = (\<lparr>startSec = 0, endSec = 300, entries = [Moving], notes = [], history = []\<rparr>,
        Some NoPendingEntry)
   \<and> assignFromPending Staying
        \<lparr>startSec = 0, endSec = 300, entries = [Moving], notes = [], history = []\<rparr>
     = (\<lparr>startSec = 0, endSec = 300, entries = [Moving], notes = [], history = []\<rparr>,
        Some NoPendingEntry)
   \<and> revertToPending Staying
        \<lparr>startSec = 0, endSec = 300, entries = [Moving], notes = [], history = []\<rparr>
     = (\<lparr>startSec = 0, endSec = 300, entries = [Moving], notes = [], history = []\<rparr>,
        Some (NoEntryOfKind Staying))
   \<and> undo \<lparr>startSec = 0, endSec = 300, entries = [Moving], notes = [], history = []\<rparr>
     = \<lparr>startSec = 0, endSec = 300, entries = [Moving], notes = [], history = []\<rparr>
   \<and> snd (removePerson
        \<lparr>startSec = 0, endSec = 300, entries = [Pending, Staying], notes = [], history = [Add]\<rparr>)
     = None
   \<and> snd (assignFromPending Moving
        \<lparr>startSec = 0, endSec = 300, entries = [Pending, Staying], notes = [], history = [Add]\<rparr>)
     = None
   \<and> snd (revertToPending Staying
        \<lparr>startSec = 0, endSec = 300, entries = [Pending, Staying], notes = [], history = [Add]\<rparr>)
     = None"
  using failure_leaves_window [of "\<lparr>startSec = 0, endSec = 300, entries = [Moving], notes = [],
      history = []\<rparr>" Staying Staying]
    failure_leaves_window [of "\<lparr>startSec = 0, endSec = 300, entries = [Pending, Staying],
      notes = [], history = [Add]\<rparr>" Moving Staying]
  by simp

section \<open>Coverage of a slot\<close>

lemma array_some_iff: "array_some p xs \<longleftrightarrow> (\<exists>x\<in>set xs. p x)"
  by (induction xs) auto

lemma isCovered_iff:
  "isCovered cov a b \<longleftrightarrow> (\<exists>c\<in>set cov. startAbs c \<le> a \<and> b \<le> endAbs c)"
  by (simp add: isCovered_def array_some_iff)

text \<open>
  Claim C1. \<open>isCovered cov a b\<close> holds exactly when one interval of \<open>cov\<close> contains both
  \<open>a\<close> and \<open>b\<close>. Hence a slot that straddles the common boundary of two contiguous
  files is not covered by the two of them, whatever their union is; the same holds for any
  coverage list in which no interval has the point \<open>m\<close> strictly inside.
\<close>

theorem isCovered_single_interval:
  "(isCovered cov a b \<longleftrightarrow> (\<exists>c\<in>set cov. startAbs c \<le> a \<and> b \<le> endAbs c))
   \<and> (endAbs c1 = startAbs c2 \<and> a < endAbs c1 \<and> endAbs c1 < b \<longrightarrow> \<not> isCovered [c1, c2] a b)
   \<and> ((\<forall>c\<in>set cov. endAbs c \<le> m \<or> m \<le> startAbs c) \<and> a < m \<and> m < b
        \<longrightarrow> \<not> isCovered cov a b)"
proof -
  have two: "\<not> isCovered [c1, c2] a b"
    if "endAbs c1 = startAbs c2 \<and> a < endAbs c1 \<and> endAbs c1 < b"
    using that by (auto simp: isCovered_iff)
  have gen: "\<not> isCovered cov a b"
    if h: "(\<forall>c\<in>set cov. endAbs c \<le> m \<or> m \<le> startAbs c) \<and> a < m \<and> m < b"
  proof
    assume "isCovered cov a b"
    then obtain c where c: "c \<in> set cov" "startAbs c \<le> a" "b \<le> endAbs c"
      by (auto simp: isCovered_iff)
    with h have "endAbs c \<le> m \<or> m \<le> startAbs c" by blast
    with c h show False by linarith
  qed
  from isCovered_iff two gen show ?thesis by blast
qed

text \<open>Two files that meet at 09:32 (34320 s): the slot 09:25 to 09:30 is covered, the slot
  09:30 to 09:35 is not, though it lies inside 09:00 to 10:00.\<close>

theorem isCovered_single_interval_witness:
  "isCovered [\<lparr>startAbs = 32400, endAbs = 34320\<rparr>, \<lparr>startAbs = 34320, endAbs = 36000\<rparr>] 33900 34200
   \<and> \<not> isCovered [\<lparr>startAbs = 32400, endAbs = 34320\<rparr>, \<lparr>startAbs = 34320, endAbs = 36000\<rparr>]
        34200 34500
   \<and> (32400::int) \<le> 34200 \<and> (34500::int) \<le> 36000"
  using isCovered_single_interval [of
      "[\<lparr>startAbs = 32400, endAbs = 34320\<rparr>, \<lparr>startAbs = 34320, endAbs = 36000\<rparr>]"
      33900 34200 "\<lparr>startAbs = 32400, endAbs = 34320\<rparr>" "\<lparr>startAbs = 34320, endAbs = 36000\<rparr>"
      34320]
    isCovered_single_interval [of
      "[\<lparr>startAbs = 32400, endAbs = 34320\<rparr>, \<lparr>startAbs = 34320, endAbs = 36000\<rparr>]"
      34200 34500 "\<lparr>startAbs = 32400, endAbs = 34320\<rparr>" "\<lparr>startAbs = 34320, endAbs = 36000\<rparr>"
      34320]
  by simp

section \<open>The windows of manual mode\<close>

lemma manualLoop_char:
  assumes "0 < step"
  shows "\<exists>ws. manualLoop t e step acc = Some (acc @ ws)
     \<and> (\<forall>i<length ws. ws ! i = newWindow (t + int i * step) (min (t + int i * step + step) e))
     \<and> (\<forall>i<length ws. t + int i * step < e)
     \<and> e \<le> t + int (length ws) * step"
proof (induction "nat (e - t)" arbitrary: t acc rule: less_induct)
  case less
  show ?case
  proof (cases "t < e")
    case False
    then have "manualLoop t e step acc = Some (acc @ [])"
      by (subst manualLoop.simps) simp
    with False show ?thesis by (intro exI [of _ "[]"]) simp
  next
    case True
    let ?w = "newWindow t (min (t + step) e)"
    from True assms have "nat (e - (t + step)) < nat (e - t)" by simp
    from less [OF this, of "acc @ [?w]"] obtain ws where
      run: "manualLoop (t + step) e step (acc @ [?w]) = Some ((acc @ [?w]) @ ws)" and
      nth: "\<forall>i<length ws. ws ! i =
          newWindow (t + step + int i * step) (min (t + step + int i * step + step) e)" and
      lt: "\<forall>i<length ws. t + step + int i * step < e" and
      ge: "e \<le> t + step + int (length ws) * step"
      by blast
    have 1: "manualLoop t e step acc = Some (acc @ ?w # ws)"
      using True run by (subst manualLoop.simps) simp
    have 2: "(?w # ws) ! i = newWindow (t + int i * step) (min (t + int i * step + step) e)"
      if "i < length (?w # ws)" for i
    proof (cases i)
      case 0
      then show ?thesis by simp
    next
      case (Suc j)
      with that nth show ?thesis by (simp add: algebra_simps)
    qed
    have 3: "t + int i * step < e" if "i < length (?w # ws)" for i
    proof (cases i)
      case 0
      with True show ?thesis by simp
    next
      case (Suc j)
      with that lt have "t + step + int j * step < e" by simp
      with Suc show ?thesis by (simp add: algebra_simps)
    qed
    have 4: "e \<le> t + int (length (?w # ws)) * step"
      using ge by (simp add: algebra_simps)
    from 1 2 3 4 show ?thesis by blast
  qed
qed


lemma step_mono:
  fixes step :: int
  assumes "0 < step" "i \<le> j"
  shows "int i * step \<le> int j * step"
  using assms by (simp add: mult_right_mono)

text \<open>
  Claim C6. For \<open>start < e\<close> and a positive step the loop of \<open>generateWindows\<close> returns, and
  its windows are \<open>(start + i * step, min (start + i * step + step) e)\<close> for
  \<open>i = 0, 1, ...\<close>: there is at least one, they are in ascending order and do not overlap,
  every second of \<open>[start, e)\<close> lies in exactly one of them and they hold nothing else,
  every window but the last has length \<open>step\<close>, and the last one ends at \<open>e\<close> and is not
  longer than \<open>step\<close>.
\<close>

theorem manual_windows_tile:
  assumes "start < e" and "0 < step"
  shows "\<exists>ws. manualLoop start e step [] = Some ws \<and> ws \<noteq> []
     \<and> (\<forall>i. i < length ws \<longleftrightarrow> start + int i * step < e)
     \<and> (\<forall>i<length ws. ws ! i = newWindow (start + int i * step) (min (start + int i * step + step) e))
     \<and> (\<forall>i j. i < j \<and> j < length ws \<longrightarrow> endSec (ws ! i) \<le> startSec (ws ! j))
     \<and> (\<forall>i<length ws. startSec (ws ! i) < endSec (ws ! i))
     \<and> (\<forall>x. start \<le> x \<and> x < e \<longrightarrow>
            (\<exists>!i. i < length ws \<and> startSec (ws ! i) \<le> x \<and> x < endSec (ws ! i)))
     \<and> (\<forall>x i. i < length ws \<and> startSec (ws ! i) \<le> x \<and> x < endSec (ws ! i)
            \<longrightarrow> start \<le> x \<and> x < e)
     \<and> (\<forall>i. Suc i < length ws \<longrightarrow> endSec (ws ! i) - startSec (ws ! i) = step)
     \<and> endSec (last ws) - startSec (last ws) \<le> step
     \<and> startSec (hd ws) = start \<and> endSec (last ws) = e"
proof -
  from manualLoop_char [OF assms(2), of start e "[]"] obtain ws where
    run: "manualLoop start e step [] = Some ws" and
    nth: "\<forall>i<length ws. ws ! i =
        newWindow (start + int i * step) (min (start + int i * step + step) e)" and
    lt: "\<forall>i<length ws. start + int i * step < e" and
    ge: "e \<le> start + int (length ws) * step"
    by auto
  let ?n = "length ws"
  have ne: "ws \<noteq> []"
    using ge assms(1) by auto
  have count: "i < ?n \<longleftrightarrow> start + int i * step < e" for i
  proof
    assume "i < ?n"
    with lt show "start + int i * step < e" by blast
  next
    assume below: "start + int i * step < e"
    show "i < ?n"
    proof (rule ccontr)
      assume "\<not> i < ?n"
      then have "int ?n * step \<le> int i * step"
        by (intro step_mono [OF assms(2)]) simp
      with below ge show False by simp
    qed
  qed
  have s: "startSec (ws ! i) = start + int i * step" if "i < ?n" for i
    using nth that by (simp add: newWindow_def)
  have en: "endSec (ws ! i) = min (start + int i * step + step) e" if "i < ?n" for i
    using nth that by (simp add: newWindow_def)
  have full: "endSec (ws ! i) = start + int i * step + step" if "Suc i < ?n" for i
  proof -
    from that lt have "start + int (Suc i) * step < e" by blast
    then have "start + int i * step + step < e" by (simp add: algebra_simps)
    with en [of i] that show ?thesis by simp
  qed
  have ord: "endSec (ws ! i) \<le> startSec (ws ! j)" if "i < j \<and> j < ?n" for i j
  proof -
    from that have "int (Suc i) * step \<le> int j * step"
      by (intro step_mono [OF assms(2)]) simp
    then have "start + int i * step + step \<le> start + int j * step"
      by (simp add: algebra_simps)
    moreover have "endSec (ws ! i) \<le> start + int i * step + step"
      using en [of i] that by simp
    ultimately show ?thesis using s [of j] that by simp
  qed
  have pos: "startSec (ws ! i) < endSec (ws ! i)" if "i < ?n" for i
    using s [OF that] en [OF that] lt that assms(2) by simp
  have inside: "start \<le> x \<and> x < e"
    if "i < ?n \<and> startSec (ws ! i) \<le> x \<and> x < endSec (ws ! i)" for x i
  proof -
    from that have i: "i < ?n" by simp
    have nonneg: "0 \<le> int i * step" using assms(2) by simp
    from that s [OF i] en [OF i] have "start + int i * step \<le> x" "x < e" by simp_all
    with nonneg show ?thesis by linarith
  qed
  have cover: "\<exists>!i. i < ?n \<and> startSec (ws ! i) \<le> x \<and> x < endSec (ws ! i)"
    if x: "start \<le> x \<and> x < e" for x
  proof (rule ex_ex1I)
    define k where "k = (x - start) div step"
    have split: "x - start = step * k + (x - start) mod step"
      by (simp add: k_def)
    have md: "0 \<le> (x - start) mod step" "(x - start) mod step < step"
      using assms(2) by simp_all
    have k0: "0 \<le> k"
      using x assms(2) by (simp add: k_def pos_imp_zdiv_nonneg_iff)
    have lo: "start + k * step \<le> x" and hi: "x < start + k * step + step"
      using split md by (simp_all add: mult.commute)
    define i where "i = nat k"
    have ik: "int i = k" using k0 by (simp add: i_def)
    have "i < ?n"
    proof (rule ccontr)
      assume "\<not> i < ?n"
      then have "int ?n * step \<le> int i * step"
        by (intro step_mono [OF assms(2)]) simp
      with lo ik ge x show False by simp
    qed
    moreover from this have "startSec (ws ! i) \<le> x" "x < endSec (ws ! i)"
      using s [of i] en [of i] lo hi ik x by simp_all
    ultimately show "\<exists>i. i < ?n \<and> startSec (ws ! i) \<le> x \<and> x < endSec (ws ! i)"
      by blast
  next
    fix i j
    assume i: "i < ?n \<and> startSec (ws ! i) \<le> x \<and> x < endSec (ws ! i)"
      and j: "j < ?n \<and> startSec (ws ! j) \<le> x \<and> x < endSec (ws ! j)"
    show "i = j"
    proof (rule ccontr)
      assume "i \<noteq> j"
      then consider "i < j" | "j < i" by linarith
      then show False
      proof cases
        case 1
        with ord [of i j] i j show False by simp
      next
        case 2
        with ord [of j i] i j show False by simp
      qed
    qed
  qed
  have lastw: "endSec (last ws) = e \<and> endSec (last ws) - startSec (last ws) \<le> step"
  proof -
    from ne have l: "last ws = ws ! (?n - 1)" and n1: "?n - 1 < ?n"
      by (simp_all add: last_conv_nth)
    from ne have "int (?n - 1) * step + step = int ?n * step"
      by (simp add: algebra_simps Suc_leI)
    with ge have "e \<le> start + int (?n - 1) * step + step" by simp
    with en [OF n1] s [OF n1] l show ?thesis by simp
  qed
  have hdw: "startSec (hd ws) = start"
    using ne s [of 0] by (simp add: hd_conv_nth)
  have fullen: "endSec (ws ! i) - startSec (ws ! i) = step" if "Suc i < ?n" for i
    using full [OF that] s [of i] that by simp
  from run ne count nth ord pos cover inside fullen lastw hdw show ?thesis
    by blast
qed


text \<open>From 0 to 700 seconds in steps of 300: two full windows and one of 100 seconds.\<close>

theorem manual_windows_tile_witness:
  "(0::int) < 700 \<and> (0::int) < 300
   \<and> manualLoop 0 700 300 [] = Some [newWindow 0 300, newWindow 300 600, newWindow 600 700]"
  using manual_windows_tile [of 0 700 300]
  by (simp add: manualLoop.simps)

section \<open>What \<open>generateWindows\<close> writes\<close>

lemma minutesOf_pos: "0 < minutesOf m * 60"
  by (simp add: minutesOf_def split: option.splits)

text \<open>
  Claim C5, as the code has it. With a non-blank identifier and \<open>start < end\<close>,
  \<open>generateWindows\<close> succeeds, sets \<open>absOrigin\<close> to \<open>null\<close>, stores the identifier, the step
  and the windows of the loop, and leaves \<open>coverage\<close> as it was. With a blank identifier,
  or with \<open>end \<le> start\<close>, it alerts and returns the state unchanged.
\<close>

theorem generateWindows_effect:
  "(trim (videoIdValue f) \<noteq> [] \<and> startTime f < endTime f \<longrightarrow>
      (\<exists>st'. generateWindows f st = Some (st', Done)
         \<and> absOrigin st' = None
         \<and> coverage st' = coverage st
         \<and> videoId st' = trim (videoIdValue f)
         \<and> windowSeconds st' = minutesOf (windowMinutes f) * 60
         \<and> manualLoop (startTime f) (endTime f) (windowSeconds st') [] = Some (windows st')
         \<and> currentIndex st' = 0))
   \<and> (trim (videoIdValue f) = [] \<longrightarrow> generateWindows f st = Some (st, Alert MissingVideoId))
   \<and> (trim (videoIdValue f) \<noteq> [] \<and> \<not> startTime f < endTime f \<longrightarrow>
        generateWindows f st = Some (st, Alert InvalidRange))"
proof -
  have ok: "\<exists>st'. generateWindows f st = Some (st', Done)
         \<and> absOrigin st' = None
         \<and> coverage st' = coverage st
         \<and> videoId st' = trim (videoIdValue f)
         \<and> windowSeconds st' = minutesOf (windowMinutes f) * 60
         \<and> manualLoop (startTime f) (endTime f) (windowSeconds st') [] = Some (windows st')
         \<and> currentIndex st' = 0"
    if h: "trim (videoIdValue f) \<noteq> [] \<and> startTime f < endTime f"
  proof -
    from manualLoop_char [OF minutesOf_pos [of "windowMinutes f"],
        of "startTime f" "endTime f" "[]"]
    obtain ws where
      "manualLoop (startTime f) (endTime f) (minutesOf (windowMinutes f) * 60) [] = Some ws"
      by auto
    with h show ?thesis by (simp add: generateWindows_def)
  qed
  have bad1: "generateWindows f st = Some (st, Alert MissingVideoId)"
    if "trim (videoIdValue f) = []"
    using that by (simp add: generateWindows_def)
  have bad2: "generateWindows f st = Some (st, Alert InvalidRange)"
    if "trim (videoIdValue f) \<noteq> [] \<and> \<not> startTime f < endTime f"
    using that by (simp add: generateWindows_def)
  from ok bad1 bad2 show ?thesis by blast
qed

lemma ascii_eq_Nil [simp]: "ascii s = [] \<longleftrightarrow> s = []"
  by (simp add: ascii_def)

lemma trim_cam1: "trim (ascii ''cam1'') = ascii ''cam1''"
  by (simp add: trim_def isSpace_def ascii_def)

text \<open>
  Claim C5 as stated fails in its coverage part: a session that holds the coverage of a
  file from 09:00 to 10:00 still holds it after a successful manual generation.
\<close>

theorem generateWindows_keeps_coverage_counterexample:
  "generateWindows
     \<lparr>videoIdValue = (ascii ''cam1''), startTime = 0, endTime = 600, windowMinutes = Some 5\<rparr>
     \<lparr>videoId = (ascii ''old''), windowSeconds = 300, windows = [], currentIndex = 0,
      absOrigin = Some 32400, coverage = Some [\<lparr>startAbs = 32400, endAbs = 36000\<rparr>]\<rparr>
   = Some (\<lparr>videoId = (ascii ''cam1''), windowSeconds = 300,
            windows = [newWindow 0 300, newWindow 300 600], currentIndex = 0,
            absOrigin = None, coverage = Some [\<lparr>startAbs = 32400, endAbs = 36000\<rparr>]\<rparr>, Done)"
  by (simp add: generateWindows_def trim_cam1 minutesOf_def manualLoop.simps)

text \<open>The theorem at a valid form, at an identifier that consists of a no-break space
  and a space, and at an empty range.\<close>

theorem generateWindows_effect_witness:
  "generateWindows
     \<lparr>videoIdValue = (ascii ''cam1''), startTime = 0, endTime = 600, windowMinutes = Some 5\<rparr>
     \<lparr>videoId = (ascii ''old''), windowSeconds = 300, windows = [], currentIndex = 0,
      absOrigin = Some 32400, coverage = None\<rparr>
   = Some (\<lparr>videoId = (ascii ''cam1''), windowSeconds = 300,
            windows = [newWindow 0 300, newWindow 300 600], currentIndex = 0,
            absOrigin = None, coverage = None\<rparr>, Done)
   \<and> generateWindows
     \<lparr>videoIdValue = [0x00A0, 0x0020], startTime = 0, endTime = 600, windowMinutes = Some 5\<rparr>
     \<lparr>videoId = (ascii ''old''), windowSeconds = 300, windows = [], currentIndex = 0,
      absOrigin = Some 32400, coverage = None\<rparr>
   = Some (\<lparr>videoId = (ascii ''old''), windowSeconds = 300, windows = [], currentIndex = 0,
      absOrigin = Some 32400, coverage = None\<rparr>, Alert MissingVideoId)
   \<and> generateWindows
     \<lparr>videoIdValue = (ascii ''cam1''), startTime = 600, endTime = 600, windowMinutes = Some 5\<rparr>
     \<lparr>videoId = (ascii ''old''), windowSeconds = 300, windows = [], currentIndex = 0,
      absOrigin = Some 32400, coverage = None\<rparr>
   = Some (\<lparr>videoId = (ascii ''old''), windowSeconds = 300, windows = [], currentIndex = 0,
      absOrigin = Some 32400, coverage = None\<rparr>, Alert InvalidRange)"
proof -
  have blank: "trim [0x00A0, 0x0020] = []"
    by (simp add: trim_def isSpace_def)
  have hyps: "trim (ascii ''cam1'') \<noteq> [] \<and> (0::int) < 600 \<and> \<not> (600::int) < 600"
    by (simp add: trim_cam1)
  show ?thesis
  using generateWindows_effect [of
        "\<lparr>videoIdValue = (ascii ''cam1''), startTime = 0, endTime = 600, windowMinutes = Some 5\<rparr>"
        "\<lparr>videoId = (ascii ''old''), windowSeconds = 300, windows = [], currentIndex = 0,
          absOrigin = Some 32400, coverage = None\<rparr>"]
      generateWindows_effect [of
        "\<lparr>videoIdValue = [0x00A0, 0x0020], startTime = 0, endTime = 600, windowMinutes = Some 5\<rparr>"
        "\<lparr>videoId = (ascii ''old''), windowSeconds = 300, windows = [], currentIndex = 0,
          absOrigin = Some 32400, coverage = None\<rparr>"]
      generateWindows_effect [of
        "\<lparr>videoIdValue = (ascii ''cam1''), startTime = 600, endTime = 600, windowMinutes = Some 5\<rparr>"
        "\<lparr>videoId = (ascii ''old''), windowSeconds = 300, windows = [], currentIndex = 0,
          absOrigin = Some 32400, coverage = None\<rparr>"]
      hyps blank
    by (simp add: generateWindows_def trim_cam1 minutesOf_def manualLoop.simps)
qed

section \<open>The windows of wall-clock mode\<close>

text \<open>
  On whole numbers the two alignments are integer division rounded down and up; they
  give the nearest multiples of the step below and above the time.
\<close>

lemma alignDown_div: "alignDown step ts = ts div step * step"
  by (simp add: alignDown_def floor_divide_of_int_eq)

lemma alignUp_div: "alignUp step ts = - (- ts div step) * step"
  by (simp add: alignUp_def ceiling_divide_eq_div)

lemma dvd_alignDown: "step dvd alignDown step ts"
  by (simp add: alignDown_div)

lemma dvd_alignUp: "step dvd alignUp step ts"
  by (simp add: alignUp_div)

lemma alignDown_le:
  assumes "0 < step"
  shows "alignDown step ts \<le> ts"
proof -
  have "step * (ts div step) + ts mod step = ts" by (rule mult_div_mod_eq)
  moreover have "0 \<le> ts mod step" using assms by simp
  ultimately have "step * (ts div step) \<le> ts" by linarith
  then show ?thesis by (simp add: alignDown_div mult.commute)
qed

lemma le_alignUp:
  assumes "0 < step"
  shows "ts \<le> alignUp step ts"
proof -
  have "step * (- ts div step) + (- ts) mod step = - ts" by (rule mult_div_mod_eq)
  moreover have "0 \<le> (- ts) mod step" using assms by simp
  ultimately have "step * (- ts div step) \<le> - ts" by linarith
  then show ?thesis by (simp add: alignUp_div mult.commute)
qed

lemma alignDown_greatest:
  assumes "0 < step" "step dvd m" "m \<le> ts"
  shows "m \<le> alignDown step ts"
proof -
  from assms(2) obtain q where m: "m = step * q" ..
  from assms(3) have "m div step \<le> ts div step"
    using assms(1) by (intro zdiv_mono1) simp_all
  with m assms(1) have "q \<le> ts div step" by simp
  with assms(1) have "step * q \<le> step * (ts div step)" by simp
  with m show ?thesis by (simp add: alignDown_div mult.commute)
qed

lemma alignUp_least:
  assumes "0 < step" "step dvd m" "ts \<le> m"
  shows "alignUp step ts \<le> m"
proof -
  from assms(2) obtain q where m: "m = step * q" ..
  from assms(3) have "- m div step \<le> - ts div step"
    using assms(1) by (intro zdiv_mono1) simp_all
  moreover have "- m div step = - q"
  proof -
    have "- m = step * (- q)" using m by simp
    with assms(1) show ?thesis by (metis nonzero_mult_div_cancel_left less_irrefl)
  qed
  ultimately have "- (- ts div step) \<le> q" by simp
  with assms(1) have "step * (- (- ts div step)) \<le> step * q" by (intro mult_left_mono) simp_all
  with m show ?thesis by (simp add: alignUp_div mult.commute)
qed

lemma gridLoop_char:
  assumes "0 < step"
  shows "\<exists>as. gridLoop t ae step orig cov acc =
        Some (acc @ map (\<lambda>a. newWindow (a - orig) (a + step - orig))
                      (filter (\<lambda>a. isCovered cov a (a + step)) as))
     \<and> (\<forall>i<length as. as ! i = t + int i * step)
     \<and> (\<forall>i<length as. t + int i * step + step \<le> ae)
     \<and> ae < t + int (length as) * step + step"
proof (induction "nat (ae - t)" arbitrary: t acc rule: less_induct)
  case less
  let ?mk = "\<lambda>a. newWindow (a - orig) (a + step - orig)"
  let ?ok = "\<lambda>a. isCovered cov a (a + step)"
  show ?case
  proof (cases "t + step \<le> ae")
    case False
    then have "gridLoop t ae step orig cov acc = Some (acc @ map ?mk (filter ?ok []))"
      by (subst gridLoop.simps) simp
    with False show ?thesis by (intro exI [of _ "[]"]) simp
  next
    case True
    let ?acc = "if ?ok t then acc @ [?mk t] else acc"
    from True assms have "nat (ae - (t + step)) < nat (ae - t)" by simp
    from less [OF this, of ?acc] obtain as where
      run: "gridLoop (t + step) ae step orig cov ?acc = Some (?acc @ map ?mk (filter ?ok as))" and
      nth: "\<forall>i<length as. as ! i = t + step + int i * step" and
      le: "\<forall>i<length as. t + step + int i * step + step \<le> ae" and
      gt: "ae < t + step + int (length as) * step + step"
      by blast
    have 1: "gridLoop t ae step orig cov acc = Some (acc @ map ?mk (filter ?ok (t # as)))"
      using True run by (subst gridLoop.simps) (cases "?ok t", simp_all)
    have 2: "(t # as) ! i = t + int i * step" if "i < length (t # as)" for i
    proof (cases i)
      case 0
      then show ?thesis by simp
    next
      case (Suc j)
      with that nth show ?thesis by (simp add: algebra_simps)
    qed
    have 3: "t + int i * step + step \<le> ae" if "i < length (t # as)" for i
    proof (cases i)
      case 0
      with True show ?thesis by simp
    next
      case (Suc j)
      with that le have "t + step + int j * step + step \<le> ae" by simp
      with Suc show ?thesis by (simp add: algebra_simps)
    qed
    have 4: "ae < t + int (length (t # as)) * step + step"
      using gt by (simp add: algebra_simps)
    from 1 2 3 4 show ?thesis by blast
  qed
qed

lemma step_strict_mono:
  fixes step :: int
  assumes "0 < step" "i < j"
  shows "int i * step < int j * step"
  using assms by (simp add: mult_strict_right_mono)

lemma grid_points:
  assumes step: "0 < step"
    and nth: "\<forall>i<length as. as ! i = t + int i * step"
    and le: "\<forall>i<length as. t + int i * step + step \<le> ae"
    and gt: "ae < t + int (length as) * step + step"
    and dvd: "step dvd t"
  shows "sorted_wrt (<) as \<and> set as = {a. step dvd a \<and> t \<le> a \<and> a + step \<le> ae}"
proof
  show "sorted_wrt (<) as"
    unfolding sorted_wrt_iff_nth_less
  proof (intro allI impI)
    fix i j assume ij: "i < j" "j < length as"
    then have "as ! i = t + int i * step" "as ! j = t + int j * step"
      using nth by simp_all
    with step_strict_mono [OF step ij(1)] show "as ! i < as ! j" by simp
  qed
  show "set as = {a. step dvd a \<and> t \<le> a \<and> a + step \<le> ae}"
  proof (intro set_eqI iffI)
    fix a assume "a \<in> set as"
    then obtain i where i: "i < length as" "a = as ! i"
      by (auto simp: in_set_conv_nth)
    with nth have a: "a = t + int i * step" by simp
    have "0 \<le> int i * step" using step by simp
    with a le i dvd show "a \<in> {a. step dvd a \<and> t \<le> a \<and> a + step \<le> ae}"
      by simp
  next
    fix a assume "a \<in> {a. step dvd a \<and> t \<le> a \<and> a + step \<le> ae}"
    then have a: "step dvd a" "t \<le> a" "a + step \<le> ae" by simp_all
    from a(1) dvd have "step dvd (a - t)" by simp
    then obtain q where q: "a - t = step * q" ..
    with a(2) step have q0: "0 \<le> q"
      by (metis diff_ge_0_iff_ge zero_le_mult_iff less_le_not_le)
    define k where "k = nat q"
    have ak: "a = t + int k * step" using q q0 by (simp add: k_def mult.commute)
    have "k < length as"
    proof (rule ccontr)
      assume "\<not> k < length as"
      then have "int (length as) * step \<le> int k * step"
        using step by (intro mult_right_mono) simp_all
      with ak a(3) gt show False by simp
    qed
    with nth ak have "a = as ! k" by simp
    with \<open>k < length as\<close> show "a \<in> set as" by simp
  qed
qed


lemma build_char:
  assumes vid: "trim (videoIdValue f) \<noteq> []"
    and step: "step = max 1 minutes * 60"
    and cov: "cov = (case coverage st of Some c \<Rightarrow> c | None \<Rightarrow> [\<lparr>startAbs = s, endAbs = e\<rparr>])"
  shows "\<exists>as. buildWindowsFromAbsRange f s e minutes st =
        Some (st\<lparr>videoId := trim (videoIdValue f), windowSeconds := step, absOrigin := Some s,
                 windows := map (\<lambda>a. newWindow (a - s) (a + step - s))
                              (filter (\<lambda>a. isCovered cov a (a + step)) as),
                 currentIndex := 0\<rparr>,
              if filter (\<lambda>a. isCovered cov a (a + step)) as = [] then NoSlotWarning else Done)
     \<and> sorted_wrt (<) as
     \<and> set as = {a. step dvd a \<and> alignUp step s \<le> a \<and> a + step \<le> alignDown step e}"
proof -
  have pos: "0 < step" using step by simp
  from gridLoop_char [OF pos, of "alignUp step s" "alignDown step e" s cov "[]"]
  obtain as where
    run: "gridLoop (alignUp step s) (alignDown step e) step s cov [] =
        Some (map (\<lambda>a. newWindow (a - s) (a + step - s))
                (filter (\<lambda>a. isCovered cov a (a + step)) as))" and
    nth: "\<forall>i<length as. as ! i = alignUp step s + int i * step" and
    le: "\<forall>i<length as. alignUp step s + int i * step + step \<le> alignDown step e" and
    gt: "alignDown step e < alignUp step s + int (length as) * step + step"
    by auto
  from grid_points [OF pos nth le gt dvd_alignUp]
  have pts: "sorted_wrt (<) as"
    "set as = {a. step dvd a \<and> alignUp step s \<le> a \<and> a + step \<le> alignDown step e}"
    by simp_all
  have "buildWindowsFromAbsRange f s e minutes st =
        Some (st\<lparr>videoId := trim (videoIdValue f), windowSeconds := step, absOrigin := Some s,
                 windows := map (\<lambda>a. newWindow (a - s) (a + step - s))
                              (filter (\<lambda>a. isCovered cov a (a + step)) as),
                 currentIndex := 0\<rparr>,
              if filter (\<lambda>a. isCovered cov a (a + step)) as = [] then NoSlotWarning else Done)"
    using vid run unfolding step cov
    by (simp add: buildWindowsFromAbsRange_def Let_def)
  with pts show ?thesis by blast
qed

text \<open>
  Claim C4. With an identifier on the page, \<open>buildWindowsFromAbsRange\<close> returns, sets the
  origin to \<open>startAbs\<close>, and its windows are, in ascending order and each once, the slots
  \<open>(a, a + step)\<close> with \<open>a\<close> a multiple of \<open>step\<close>, \<open>alignUp step startAbs \<le> a\<close> and
  \<open>a + step \<le> alignDown step endAbs\<close> that one coverage interval contains, stored as
  the offsets \<open>(a - startAbs, a + step - startAbs)\<close>. Every window has length \<open>step\<close>.
  When no slot survives, the call still succeeds, with an empty window list and the
  warning.
\<close>

theorem wallclock_windows:
  assumes "trim (videoIdValue f) \<noteq> []"
    and "step = max 1 minutes * 60"
    and "cov = (case coverage st of Some c \<Rightarrow> c | None \<Rightarrow> [\<lparr>startAbs = s, endAbs = e\<rparr>])"
  shows "\<exists>st' as. buildWindowsFromAbsRange f s e minutes st =
        Some (st', if as = [] then NoSlotWarning else Done)
     \<and> absOrigin st' = Some s \<and> windowSeconds st' = step
     \<and> windows st' = map (\<lambda>a. newWindow (a - s) (a + step - s)) as
     \<and> sorted_wrt (<) as
     \<and> set as = {a. step dvd a \<and> alignUp step s \<le> a \<and> a + step \<le> alignDown step e
                    \<and> isCovered cov a (a + step)}
     \<and> (\<forall>w\<in>set (windows st'). endSec w - startSec w = step)"
proof -
  from build_char [OF assms] obtain grid where
    run: "buildWindowsFromAbsRange f s e minutes st =
        Some (st\<lparr>videoId := trim (videoIdValue f), windowSeconds := step, absOrigin := Some s,
                 windows := map (\<lambda>a. newWindow (a - s) (a + step - s))
                              (filter (\<lambda>a. isCovered cov a (a + step)) grid),
                 currentIndex := 0\<rparr>,
              if filter (\<lambda>a. isCovered cov a (a + step)) grid = [] then NoSlotWarning else Done)" and
    sorted: "sorted_wrt (<) grid" and
    pts: "set grid = {a. step dvd a \<and> alignUp step s \<le> a \<and> a + step \<le> alignDown step e}"
    by blast
  let ?as = "filter (\<lambda>a. isCovered cov a (a + step)) grid"
  let ?st = "st\<lparr>videoId := trim (videoIdValue f), windowSeconds := step, absOrigin := Some s,
                 windows := map (\<lambda>a. newWindow (a - s) (a + step - s)) ?as,
                 currentIndex := 0\<rparr>"
  have 1: "buildWindowsFromAbsRange f s e minutes st =
      Some (?st, if ?as = [] then NoSlotWarning else Done)"
    by (rule run)
  have 2: "sorted_wrt (<) ?as"
    using sorted by (rule sorted_wrt_filter)
  have 3: "set ?as = {a. step dvd a \<and> alignUp step s \<le> a \<and> a + step \<le> alignDown step e
                    \<and> isCovered cov a (a + step)}"
    using pts by auto
  have 4: "\<forall>w\<in>set (windows ?st). endSec w - startSec w = step"
    by (auto simp: newWindow_def)
  have 5: "absOrigin ?st = Some s \<and> windowSeconds ?st = step
     \<and> windows ?st = map (\<lambda>a. newWindow (a - s) (a + step - s)) ?as"
    by simp
  from 1 2 3 4 5 show ?thesis by blast
qed

text \<open>
  Claim C10. When \<open>state.coverage\<close> is not an array, the range \<open>[startAbs, endAbs]\<close> itself
  is the only coverage interval, and no slot is dropped: the windows are all the slots
  \<open>(a, a + step)\<close> with \<open>a\<close> a multiple of \<open>step\<close> between the aligned bounds, which are the
  multiples with \<open>startAbs \<le> a\<close> and \<open>a + step \<le> endAbs\<close>.
\<close>

theorem wallclock_no_coverage:
  assumes "trim (videoIdValue f) \<noteq> []"
    and "step = max 1 minutes * 60"
    and "coverage st = None"
  shows "\<exists>st' as. buildWindowsFromAbsRange f s e minutes st =
        Some (st', if as = [] then NoSlotWarning else Done)
     \<and> windows st' = map (\<lambda>a. newWindow (a - s) (a + step - s)) as
     \<and> sorted_wrt (<) as
     \<and> set as = {a. step dvd a \<and> alignUp step s \<le> a \<and> a + step \<le> alignDown step e}
     \<and> set as = {a. step dvd a \<and> s \<le> a \<and> a + step \<le> e}"
proof -
  have pos: "0 < step" using assms(2) by simp
  let ?cov = "[\<lparr>startAbs = s, endAbs = e\<rparr>]"
  have cov: "?cov = (case coverage st of Some c \<Rightarrow> c | None \<Rightarrow> [\<lparr>startAbs = s, endAbs = e\<rparr>])"
    using assms(3) by simp
  from build_char [OF assms(1,2) cov] obtain grid where
    run: "buildWindowsFromAbsRange f s e minutes st =
        Some (st\<lparr>videoId := trim (videoIdValue f), windowSeconds := step, absOrigin := Some s,
                 windows := map (\<lambda>a. newWindow (a - s) (a + step - s))
                              (filter (\<lambda>a. isCovered ?cov a (a + step)) grid),
                 currentIndex := 0\<rparr>,
              if filter (\<lambda>a. isCovered ?cov a (a + step)) grid = [] then NoSlotWarning else Done)" and
    sorted: "sorted_wrt (<) grid" and
    pts: "set grid = {a. step dvd a \<and> alignUp step s \<le> a \<and> a + step \<le> alignDown step e}"
    by blast
  have all: "isCovered ?cov a (a + step)" if "a \<in> set grid" for a
  proof -
    from that pts have "alignUp step s \<le> a" "a + step \<le> alignDown step e" by simp_all
    with le_alignUp [OF pos, of s] alignDown_le [OF pos, of e] show ?thesis
      by (simp add: isCovered_def)
  qed
  then have keep: "filter (\<lambda>a. isCovered ?cov a (a + step)) grid = grid"
    by (simp add: filter_id_conv)
  have same: "{a. step dvd a \<and> alignUp step s \<le> a \<and> a + step \<le> alignDown step e}
      = {a. step dvd a \<and> s \<le> a \<and> a + step \<le> e}"
  proof (intro set_eqI iffI)
    fix a assume "a \<in> {a. step dvd a \<and> alignUp step s \<le> a \<and> a + step \<le> alignDown step e}"
    with le_alignUp [OF pos, of s] alignDown_le [OF pos, of e]
    show "a \<in> {a. step dvd a \<and> s \<le> a \<and> a + step \<le> e}" by simp
  next
    fix a assume "a \<in> {a. step dvd a \<and> s \<le> a \<and> a + step \<le> e}"
    then have a: "step dvd a" "s \<le> a" "a + step \<le> e" by simp_all
    from a(1) have "step dvd a + step" by simp
    with alignUp_least [OF pos a(1,2)] alignDown_greatest [OF pos _ a(3)] a(1)
    show "a \<in> {a. step dvd a \<and> alignUp step s \<le> a \<and> a + step \<le> alignDown step e}" by simp
  qed
  from run keep sorted pts same show ?thesis
    by (intro exI [of _ "st\<lparr>videoId := trim (videoIdValue f), windowSeconds := step,
         absOrigin := Some s, windows := map (\<lambda>a. newWindow (a - s) (a + step - s)) grid,
         currentIndex := 0\<rparr>"] exI [of _ grid]) simp
qed


text \<open>
  Claim C4 at two files that meet at 09:32, from 09:00 to 10:00 in steps of five minutes:
  the slot from 09:30 to 09:35 is dropped. With a coverage that contains no slot the
  result is the empty list and the warning.
\<close>

theorem wallclock_windows_witness:
  "trim (ascii ''cam1'') \<noteq> []
   \<and> buildWindowsFromAbsRange
       \<lparr>videoIdValue = (ascii ''cam1''), startTime = 0, endTime = 0, windowMinutes = Some 5\<rparr>
       32400 36000 5
       \<lparr>videoId = [], windowSeconds = 300, windows = [], currentIndex = 0, absOrigin = None,
        coverage = Some [\<lparr>startAbs = 32400, endAbs = 34320\<rparr>,
                         \<lparr>startAbs = 34320, endAbs = 36000\<rparr>]\<rparr>
     = Some (\<lparr>videoId = (ascii ''cam1''), windowSeconds = 300,
              windows = [newWindow 0 300, newWindow 300 600, newWindow 600 900,
                newWindow 900 1200, newWindow 1200 1500, newWindow 1500 1800,
                newWindow 2100 2400, newWindow 2400 2700, newWindow 2700 3000,
                newWindow 3000 3300, newWindow 3300 3600],
              currentIndex = 0, absOrigin = Some 32400,
              coverage = Some [\<lparr>startAbs = 32400, endAbs = 34320\<rparr>,
                               \<lparr>startAbs = 34320, endAbs = 36000\<rparr>]\<rparr>, Done)
   \<and> buildWindowsFromAbsRange
       \<lparr>videoIdValue = (ascii ''cam1''), startTime = 0, endTime = 0, windowMinutes = Some 5\<rparr>
       32400 36000 5
       \<lparr>videoId = [], windowSeconds = 300, windows = [], currentIndex = 0, absOrigin = None,
        coverage = Some [\<lparr>startAbs = 32500, endAbs = 32900\<rparr>]\<rparr>
     = Some (\<lparr>videoId = (ascii ''cam1''), windowSeconds = 300, windows = [],
              currentIndex = 0, absOrigin = Some 32400,
              coverage = Some [\<lparr>startAbs = 32500, endAbs = 32900\<rparr>]\<rparr>, NoSlotWarning)"
proof -
  have hyps: "trim (ascii ''cam1'') \<noteq> [] \<and> (300::int) = max 1 5 * 60"
    by (simp add: trim_cam1)
  show ?thesis
    using hyps
      wallclock_windows [where
        f = "\<lparr>videoIdValue = (ascii ''cam1''), startTime = 0, endTime = 0, windowMinutes = Some 5\<rparr>"
        and step = 300 and minutes = 5
        and cov = "[\<lparr>startAbs = 32400, endAbs = 34320\<rparr>, \<lparr>startAbs = 34320, endAbs = 36000\<rparr>]"
        and st = "\<lparr>videoId = [], windowSeconds = 300, windows = [], currentIndex = 0,
          absOrigin = None,
          coverage = Some [\<lparr>startAbs = 32400, endAbs = 34320\<rparr>,
                           \<lparr>startAbs = 34320, endAbs = 36000\<rparr>]\<rparr>"
        and s = 32400 and e = 36000]
    by (simp add: buildWindowsFromAbsRange_def trim_cam1 alignUp_def alignDown_def
          isCovered_def gridLoop.simps)
qed

text \<open>Claim C10 at a range from 09:03 to 09:58: the ten slots from 09:05 to 09:55.\<close>

theorem wallclock_no_coverage_witness:
  "trim (ascii ''cam1'') \<noteq> []
   \<and> buildWindowsFromAbsRange
       \<lparr>videoIdValue = (ascii ''cam1''), startTime = 0, endTime = 0, windowMinutes = Some 5\<rparr>
       32580 35880 5
       \<lparr>videoId = [], windowSeconds = 300, windows = [], currentIndex = 0, absOrigin = None,
        coverage = None\<rparr>
     = Some (\<lparr>videoId = (ascii ''cam1''), windowSeconds = 300,
              windows = [newWindow 120 420, newWindow 420 720, newWindow 720 1020,
                newWindow 1020 1320, newWindow 1320 1620, newWindow 1620 1920,
                newWindow 1920 2220, newWindow 2220 2520, newWindow 2520 2820,
                newWindow 2820 3120],
              currentIndex = 0, absOrigin = Some 32580, coverage = None\<rparr>, Done)"
proof -
  have hyps: "trim (ascii ''cam1'') \<noteq> [] \<and> (300::int) = max 1 5 * 60"
    by (simp add: trim_cam1)
  show ?thesis
    using hyps
      wallclock_no_coverage [where
        f = "\<lparr>videoIdValue = (ascii ''cam1''), startTime = 0, endTime = 0, windowMinutes = Some 5\<rparr>"
        and step = 300 and minutes = 5
        and st = "\<lparr>videoId = [], windowSeconds = 300, windows = [], currentIndex = 0,
          absOrigin = None, coverage = None\<rparr>"
        and s = 32580 and e = 35880]
    by (simp add: buildWindowsFromAbsRange_def trim_cam1 alignUp_def alignDown_def
          isCovered_def gridLoop.simps)
qed

section \<open>Selecting several files: what the handler does\<close>

text \<open>
  A name that does not parse stops the handler before it writes anything; declining the
  overwrite does so too. Otherwise the coverage becomes the parsed intervals in ascending
  order of start, and \<open>buildWindowsFromAbsRange\<close> runs from the least start to the end
  time of the last element of the sorted list.
\<close>

lemma collectMetas_Inl_D:
  "collectMetas parseP ns acc = Inl n \<Longrightarrow> n \<in> set ns \<and> parseP n = None"
  by (induction ns arbitrary: acc) (auto split: option.splits)

lemma collectMetas_all_parse:
  "\<forall>n\<in>set ns. parseP n \<noteq> None \<Longrightarrow>
     collectMetas parseP ns acc = Inr (acc @ map (\<lambda>n. (n, the (parseP n))) ns)"
  by (induction ns arbitrary: acc) (auto split: option.splits)

lemma collectMetas_rejects:
  "\<exists>n\<in>set ns. parseP n = None \<Longrightarrow> \<exists>n\<in>set ns. collectMetas parseP ns acc = Inl n"
proof (induction ns arbitrary: acc)
  case Nil
  then show ?case by simp
next
  case (Cons a ns)
  show ?case
  proof (cases "parseP a")
    case None
    then show ?thesis by simp
  next
    case (Some info)
    with Cons.prems have "\<exists>n\<in>set ns. parseP n = None" by auto
    from Cons.IH [OF this, of "acc @ [(a, info)]"] Some show ?thesis by auto
  qed
qed

lemma fiChangeMulti_rejects:
  assumes "\<exists>n\<in>set names. parseP n = None"
  shows "\<exists>n\<in>set names. fiChangeMulti parseP c names f st = Some (st, Alert (BadFilename n))"
proof -
  from collectMetas_rejects [OF assms, of "[]"] obtain n where
    "n \<in> set names" "collectMetas parseP names [] = Inl n" by blast
  then show ?thesis by (auto simp: fiChangeMulti_def)
qed

lemma fiChangeMulti_declined:
  assumes "\<forall>n\<in>set names. parseP n \<noteq> None" and "windows st \<noteq> []" and "\<not> c"
  shows "fiChangeMulti parseP c names f st = Some (st, Cancelled)"
  using assms collectMetas_all_parse [of names parseP "[]"]
  by (simp add: fiChangeMulti_def Let_def)

lemma hd_sort_key_Min:
  fixes k :: "'a \<Rightarrow> int"
  assumes "xs \<noteq> []"
  shows "k (hd (sort_key k xs)) = Min (k ` set xs)"
proof -
  let ?ys = "sort_key k xs"
  from assms have ne: "?ys \<noteq> []" by (metis length_sort list.size(3) length_0_conv)
  then obtain a rest where ys: "?ys = a # rest" by (cases ?ys) auto
  have "sorted (map k ?ys)" by (rule sorted_sort_key)
  with ys have le: "\<forall>x\<in>set rest. k a \<le> k x" by simp
  have set: "set xs = insert a (set rest)"
    using ys by (metis set_sort list.simps(15))
  have "Min (k ` set xs) = k a"
  proof (rule Min_eqI)
    show "finite (k ` set xs)" by simp
    show "k a \<in> k ` set xs" using set by simp
    fix y assume "y \<in> k ` set xs"
    with set le show "k a \<le> y" by auto
  qed
  with ys show ?thesis by simp
qed

lemma fiChangeMulti_runs:
  assumes parse: "\<forall>n\<in>set names. parseP n \<noteq> None"
    and go: "windows st = [] \<or> c"
    and vid: "videoIdValue f \<noteq> []"
    and metas: "metas = sort_key (\<lambda>m. startAbs (snd m)) (map (\<lambda>n. (n, the (parseP n))) names)"
    and ne: "names \<noteq> []"
  shows "fiChangeMulti parseP c names f st =
     buildWindowsFromAbsRange f
       (Min ((\<lambda>n. startAbs (the (parseP n))) ` set names))
       (endAbs (snd (last metas)))
       (minutesOf (windowMinutes f))
       (st\<lparr>coverage := Some (map (\<lambda>m. \<lparr>startAbs = startAbs (snd m), endAbs = endAbs (snd m)\<rparr>)
                              metas)\<rparr>)"
proof -
  let ?un = "map (\<lambda>n. (n, the (parseP n))) names"
  have un: "?un \<noteq> []" using ne by simp
  have "startAbs (snd (hd metas)) = Min ((\<lambda>m. startAbs (snd m)) ` set ?un)"
    unfolding metas by (rule hd_sort_key_Min [OF un])
  also have "(\<lambda>m. startAbs (snd m)) ` set ?un = (\<lambda>n. startAbs (the (parseP n))) ` set names"
    by (auto simp: image_iff)
  finally have mn: "startAbs (snd (hd metas)) = Min ((\<lambda>n. startAbs (the (parseP n))) ` set names)" .
  show ?thesis
    using go vid collectMetas_all_parse [OF parse, of "[]"] mn
    by (auto simp: fiChangeMulti_def Let_def metas)
qed

text \<open>
  Claim C7 at a file from 09:00 to 10:00 and a file from 09:10 to 09:20. The handler takes
  as \<open>maxEnd\<close> the end of the file that starts last, 09:20, and generates four windows;
  generation up to the greatest end time, 10:00, gives twelve.
\<close>

theorem multi_file_range_end:
  "fiChangeMulti parseP_sample True
       [(ascii ''P240101_090000_100000.mp4''), (ascii ''P240101_091000_092000.mp4'')]
       \<lparr>videoIdValue = (ascii ''cam1''), startTime = 0, endTime = 0, windowMinutes = Some 5\<rparr>
       \<lparr>videoId = [], windowSeconds = 300, windows = [], currentIndex = 0, absOrigin = None,
        coverage = None\<rparr>
     = Some (\<lparr>videoId = (ascii ''cam1''), windowSeconds = 300,
              windows = [newWindow 0 300, newWindow 300 600, newWindow 600 900,
                newWindow 900 1200],
              currentIndex = 0, absOrigin = Some 1704099600,
              coverage = Some [\<lparr>startAbs = 1704099600, endAbs = 1704103200\<rparr>,
                               \<lparr>startAbs = 1704100200, endAbs = 1704100800\<rparr>]\<rparr>, Done)
   \<and> buildWindowsFromAbsRange
       \<lparr>videoIdValue = (ascii ''cam1''), startTime = 0, endTime = 0, windowMinutes = Some 5\<rparr>
       1704099600 1704103200 5
       \<lparr>videoId = [], windowSeconds = 300, windows = [], currentIndex = 0, absOrigin = None,
        coverage = Some [\<lparr>startAbs = 1704099600, endAbs = 1704103200\<rparr>,
                         \<lparr>startAbs = 1704100200, endAbs = 1704100800\<rparr>]\<rparr>
     = Some (\<lparr>videoId = (ascii ''cam1''), windowSeconds = 300,
              windows = [newWindow 0 300, newWindow 300 600, newWindow 600 900,
                newWindow 900 1200, newWindow 1200 1500, newWindow 1500 1800,
                newWindow 1800 2100, newWindow 2100 2400, newWindow 2400 2700,
                newWindow 2700 3000, newWindow 3000 3300, newWindow 3300 3600],
              currentIndex = 0, absOrigin = Some 1704099600,
              coverage = Some [\<lparr>startAbs = 1704099600, endAbs = 1704103200\<rparr>,
                               \<lparr>startAbs = 1704100200, endAbs = 1704100800\<rparr>]\<rparr>, Done)"
  by (simp add: fiChangeMulti_def parseP_sample_def minutesOf_def
        buildWindowsFromAbsRange_def trim_def isSpace_def ascii_def alignUp_def alignDown_def
        isCovered_def gridLoop.simps)

section \<open>The export gate\<close>

lemma countKind_pos_iff: "0 < countKind k es \<longleftrightarrow> k \<in> set es"
  by (induction es) (auto simp: countKind_def)

lemma summaryLoop_eq:
  "summaryLoop st ws rows =
     (if \<exists>w\<in>set ws. Pending \<in> set (entries w) then Inl PendingRemaining
      else Inr (rows @ map (summaryRow st) ws))"
  by (induction ws arbitrary: rows) (auto simp: countKind_pos_iff)

lemma detailEntries_extends:
  "\<exists>more. detailEntries st w es idx rows = rows @ more
      \<and> length more = countKind Moving es + countKind Staying es"
proof (induction es arbitrary: idx rows)
  case Nil
  show ?case by (simp add: countKind_def)
next
  case (Cons e es)
  show ?case
  proof (cases "e = Moving \<or> e = Staying")
    case True
    from Cons.IH [of "idx + 1" "rows @ [detailRow st w idx e]"] obtain more where
      "detailEntries st w es (idx + 1) (rows @ [detailRow st w idx e])
         = (rows @ [detailRow st w idx e]) @ more"
      "length more = countKind Moving es + countKind Staying es" by blast
    with True show ?thesis
      by (intro exI [of _ "detailRow st w idx e # more"]) (auto simp: countKind_def)
  next
    case False
    with Cons.IH [of idx rows] show ?thesis by (auto simp: countKind_def)
  qed
qed

lemma detailLoop_eq:
  "(if \<exists>w\<in>set ws. Pending \<in> set (entries w) then detailLoop st ws rows = Inl PendingRemaining
    else \<exists>more. detailLoop st ws rows = Inr (rows @ more)
      \<and> length more = (\<Sum>w\<leftarrow>ws. countKind Moving (entries w) + countKind Staying (entries w)))"
proof (induction ws arbitrary: rows)
  case Nil
  show ?case by simp
next
  case (Cons w ws)
  show ?case
  proof (cases "Pending \<in> set (entries w)")
    case True
    then show ?thesis by (simp add: countKind_pos_iff)
  next
    case False
    obtain m1 where m1: "detailEntries st w (entries w) 1 rows = rows @ m1"
      "length m1 = countKind Moving (entries w) + countKind Staying (entries w)"
      using detailEntries_extends by blast
    show ?thesis
    proof (cases "\<exists>w\<in>set ws. Pending \<in> set (entries w)")
      case True
      with Cons.IH [of "rows @ m1"] False m1 show ?thesis
        by (simp add: countKind_pos_iff)
    next
      case no: False
      with Cons.IH [of "rows @ m1"] obtain m2 where
        "detailLoop st ws (rows @ m1) = Inr ((rows @ m1) @ m2)"
        "length m2 = (\<Sum>w\<leftarrow>ws. countKind Moving (entries w) + countKind Staying (entries w))"
        by auto
      with False no m1 show ?thesis
        by (simp add: countKind_pos_iff)
    qed
  qed
qed

text \<open>
  Claim C9. When some window of the session holds a \<open>Pending\<close> entry, both exporters stop
  with the alert and produce no file. When no window holds one, the summary exporter
  produces the header and one line per window, and the detail exporter produces the
  header and one line per \<open>Moving\<close> or \<open>Staying\<close> entry.
\<close>

theorem export_gate:
  "((\<exists>w\<in>set (windows st). Pending \<in> set (entries w)) \<longrightarrow>
       exportCSV st = Inl PendingRemaining \<and> exportDetailCSV st = Inl PendingRemaining)
   \<and> ((\<forall>w\<in>set (windows st). Pending \<notin> set (entries w)) \<longrightarrow>
       exportCSV st = Inr (summaryHeader # map (summaryRow st) (windows st))
       \<and> (\<exists>more. exportDetailCSV st = Inr (detailHeader # more)
            \<and> length more =
                (\<Sum>w\<leftarrow>windows st. countKind Moving (entries w) + countKind Staying (entries w))))"
proof -
  have a: "exportCSV st = Inl PendingRemaining \<and> exportDetailCSV st = Inl PendingRemaining"
    if "\<exists>w\<in>set (windows st). Pending \<in> set (entries w)"
    using that detailLoop_eq [of "windows st" st "[detailHeader]"]
    by (simp add: exportCSV_def exportDetailCSV_def summaryLoop_eq)
  have b: "exportCSV st = Inr (summaryHeader # map (summaryRow st) (windows st))
       \<and> (\<exists>more. exportDetailCSV st = Inr (detailHeader # more)
            \<and> length more =
                (\<Sum>w\<leftarrow>windows st. countKind Moving (entries w) + countKind Staying (entries w)))"
    if "\<forall>w\<in>set (windows st). Pending \<notin> set (entries w)"
    using that detailLoop_eq [of "windows st" st "[detailHeader]"]
    by (auto simp: exportCSV_def exportDetailCSV_def summaryLoop_eq)
  from a b show ?thesis by blast
qed

text \<open>The theorem at a session whose window holds \<open>[Moving, Pending]\<close> and at one whose
  window holds \<open>[Moving, Staying]\<close>.\<close>

theorem export_gate_witness:
  "exportCSV \<lparr>videoId = (ascii ''cam1''), windowSeconds = 300,
       windows = [\<lparr>startSec = 0, endSec = 300, entries = [Moving, Pending], notes = [],
                   history = []\<rparr>],
       currentIndex = 0, absOrigin = None, coverage = None\<rparr> = Inl PendingRemaining
   \<and> exportDetailCSV \<lparr>videoId = (ascii ''cam1''), windowSeconds = 300,
       windows = [\<lparr>startSec = 0, endSec = 300, entries = [Moving, Pending], notes = [],
                   history = []\<rparr>],
       currentIndex = 0, absOrigin = None, coverage = None\<rparr> = Inl PendingRemaining
   \<and> exportCSV \<lparr>videoId = (ascii ''cam1''), windowSeconds = 300,
       windows = [\<lparr>startSec = 0, endSec = 300, entries = [Moving, Staying], notes = [],
                   history = []\<rparr>],
       currentIndex = 0, absOrigin = None, coverage = None\<rparr>
     = Inr [summaryHeader,
            [Text (ascii ''cam1''), RelTime 0, RelTime 300, Count 2, Count 1, Count 1, Text []]]
   \<and> exportDetailCSV \<lparr>videoId = (ascii ''cam1''), windowSeconds = 300,
       windows = [\<lparr>startSec = 0, endSec = 300, entries = [Moving, Staying], notes = [],
                   history = []\<rparr>],
       currentIndex = 0, absOrigin = None, coverage = None\<rparr>
     = Inr [detailHeader,
            [Text (ascii ''cam1''), RelTime 0, PersonId 1, Text [], Text (ascii ''moving''), Text []],
            [Text (ascii ''cam1''), RelTime 0, PersonId 2, Text [], Text (ascii ''staying''), Text []]]"
  using export_gate [of "\<lparr>videoId = (ascii ''cam1''), windowSeconds = 300,
       windows = [\<lparr>startSec = 0, endSec = 300, entries = [Moving, Pending], notes = [],
                   history = []\<rparr>],
       currentIndex = 0, absOrigin = None, coverage = None\<rparr>"]
    export_gate [of "\<lparr>videoId = (ascii ''cam1''), windowSeconds = 300,
       windows = [\<lparr>startSec = 0, endSec = 300, entries = [Moving, Staying], notes = [],
                   history = []\<rparr>],
       currentIndex = 0, absOrigin = None, coverage = None\<rparr>"]
  by (simp add: exportDetailCSV_def detailRow_def summaryRow_def countKind_def timeCell_def)

end
